theory Spec2Isabelle
  imports Complex_Main "HOL-Library.Char_ord"
begin

section \<open>Character-level text generation: vocabulary, windows, sampler, generator\<close>

text \<open>
  The notebook is a linear Python script. Its pure parts are embedded as HOL functions,
  its exceptions as values of \<open>error + 'a\<close>, and its loops as recursive functions.
  Python strings are \<open>string\<close>: after the notebook's regular-expression filter and
  \<^verbatim>\<open>lower()\<close> the corpus holds ASCII characters only, and Python orders characters by
  code point, which is the order of \<open>char\<close>.
\<close>

datatype error =
    KeyError
  | IndexError
  | ValueError
  | ModelError

subsection \<open>Vocabulary indexer\<close>

text \<open>
  \<^verbatim>\<open>chars = sorted(list(set(raw_text)))\<close>.
  The iteration order of a Python set is not fixed, so \<^verbatim>\<open>list(set(raw_text))\<close> is some
  duplicate-free enumeration of the characters; \<^verbatim>\<open>sorted\<close> then fixes the order.
  \<open>remdups\<close> is one such enumeration.
\<close>

definition chars :: "string \<Rightarrow> char list" where
  "chars raw_text = sort (remdups raw_text)"

definition n_vocab :: "string \<Rightarrow> nat" where
  "n_vocab raw_text = length (chars raw_text)"

text \<open>\<^verbatim>\<open>dict(pairs)\<close>: a later pair with the same key replaces an earlier one.\<close>

definition dict :: "('k \<times> 'v) list \<Rightarrow> ('k \<rightharpoonup> 'v)" where
  "dict kvs = map_of (rev kvs)"

text \<open>
  \<^verbatim>\<open>char_to_int = dict((c, i) for i, c in enumerate(chars))\<close> and
  \<^verbatim>\<open>int_to_char = dict((i, c) for i, c in enumerate(chars))\<close>.
\<close>

definition char_to_int :: "string \<Rightarrow> (char \<rightharpoonup> nat)" where
  "char_to_int raw_text = dict (map (\<lambda>(i, c). (c, i)) (List.enumerate 0 (chars raw_text)))"

definition int_to_char :: "string \<Rightarrow> (nat \<rightharpoonup> char)" where
  "int_to_char raw_text = dict (map (\<lambda>(i, c). (i, c)) (List.enumerate 0 (chars raw_text)))"

subsection \<open>Windowing loop\<close>

text \<open>
  \<^verbatim>\<open>
  for i in range(0, n_chars - seq_length, 1):
      inputs.append(raw_text[i:i + seq_length])
      outputs.append(raw_text[i + seq_length])
  \<close>
  A slice never raises; an index out of range raises IndexError. The range is empty when
  \<^verbatim>\<open>n_chars - seq_length\<close> is zero or negative, which the truncating subtraction of
  \<open>nat\<close> gives as well.
\<close>

definition window_step ::
  "string \<Rightarrow> nat \<Rightarrow> nat \<Rightarrow> string list \<times> char list \<Rightarrow> error + (string list \<times> char list)" where
  "window_step raw_text seq_length i acc =
     (if i + seq_length < length raw_text
      then Inr (fst acc @ [take seq_length (drop i raw_text)],
                snd acc @ [raw_text ! (i + seq_length)])
      else Inl IndexError)"

fun window_loop ::
  "string \<Rightarrow> nat \<Rightarrow> nat list \<Rightarrow> string list \<times> char list \<Rightarrow> error + (string list \<times> char list)" where
  "window_loop raw_text seq_length [] acc = Inr acc"
| "window_loop raw_text seq_length (i # is) acc =
     (case window_step raw_text seq_length i acc of
        Inl e \<Rightarrow> Inl e
      | Inr acc' \<Rightarrow> window_loop raw_text seq_length is acc')"

definition windows :: "string \<Rightarrow> nat \<Rightarrow> error + (string list \<times> char list)" where
  "windows raw_text seq_length =
     window_loop raw_text seq_length [0..<length raw_text - seq_length] ([], [])"

subsection \<open>float64 arithmetic\<close>

text \<open>
  The sampler computes on numpy \<^verbatim>\<open>float64\<close> arrays. A float64 value is modelled as a
  real number or one of the IEEE special values. The embedding covers how the special
  values arise and propagate (\<^verbatim>\<open>np.log(0) = -inf\<close>, \<^verbatim>\<open>np.exp(-inf) = 0\<close>,
  \<^verbatim>\<open>0/0 = nan\<close>; numpy reports these with a warning, not an exception) and the range
  of the format: a result whose magnitude is at most \<open>2^-1075\<close>, half the smallest
  subnormal number, becomes zero, and one whose magnitude reaches \<open>2^1024 - 2^970\<close>
  becomes infinite, as round-to-nearest gives. Rounding within the range is not
  modelled, and zero carries no sign (it divides like \<open>+0\<close>); nothing below is stated
  about values that depend on either.
\<close>

datatype float64 = NaN | NegInf | PosInf | Fin real

definition f64_overflow :: real where
  "f64_overflow = 2 ^ 1024 - 2 ^ 970"

definition f64_underflow :: real where
  "f64_underflow = 1 / 2 ^ 1075"

definition f64_of_real :: "real \<Rightarrow> float64" where
  "f64_of_real x =
     (if f64_overflow \<le> x then PosInf
      else if x \<le> - f64_overflow then NegInf
      else if \<bar>x\<bar> \<le> f64_underflow then Fin 0
      else Fin x)"

fun np_log :: "float64 \<Rightarrow> float64" where
  "np_log NaN = NaN"
| "np_log NegInf = NaN"
| "np_log PosInf = PosInf"
| "np_log (Fin x) = (if 0 < x then f64_of_real (ln x) else if x = 0 then NegInf else NaN)"

fun np_exp :: "float64 \<Rightarrow> float64" where
  "np_exp NaN = NaN"
| "np_exp NegInf = Fin 0"
| "np_exp PosInf = PosInf"
| "np_exp (Fin x) = f64_of_real (exp x)"

fun f64_div :: "float64 \<Rightarrow> float64 \<Rightarrow> float64" where
  "f64_div NaN b = NaN"
| "f64_div a NaN = NaN"
| "f64_div (Fin x) (Fin y) =
     (if y \<noteq> 0 then f64_of_real (x / y)
      else if x = 0 then NaN
      else if 0 < x then PosInf else NegInf)"
| "f64_div (Fin x) PosInf = Fin 0"
| "f64_div (Fin x) NegInf = Fin 0"
| "f64_div PosInf (Fin y) = (if y < 0 then NegInf else PosInf)"
| "f64_div NegInf (Fin y) = (if y < 0 then PosInf else NegInf)"
| "f64_div PosInf PosInf = NaN"
| "f64_div PosInf NegInf = NaN"
| "f64_div NegInf PosInf = NaN"
| "f64_div NegInf NegInf = NaN"

fun f64_add :: "float64 \<Rightarrow> float64 \<Rightarrow> float64" where
  "f64_add NaN b = NaN"
| "f64_add a NaN = NaN"
| "f64_add (Fin x) (Fin y) = f64_of_real (x + y)"
| "f64_add (Fin x) PosInf = PosInf"
| "f64_add (Fin x) NegInf = NegInf"
| "f64_add PosInf (Fin y) = PosInf"
| "f64_add NegInf (Fin y) = NegInf"
| "f64_add PosInf PosInf = PosInf"
| "f64_add NegInf NegInf = NegInf"
| "f64_add PosInf NegInf = NaN"
| "f64_add NegInf PosInf = NaN"

primrec np_sum :: "float64 list \<Rightarrow> float64" where
  "np_sum [] = Fin 0"
| "np_sum (a # as) = f64_add a (np_sum as)"

subsection \<open>Temperature sampler\<close>

text \<open>
  \<^verbatim>\<open>
  def sample(preds, temperature=1.0):
      preds = np.asarray(preds).astype('float64')
      preds = np.log(preds) / temperature
      exp_preds = np.exp(preds)
      preds = exp_preds / np.sum(exp_preds)
      probas = np.random.multinomial(1, preds, 1)
      return np.argmax(probas)
  \<close>
  \<open>sample_pvals\<close> is the vector handed to \<^verbatim>\<open>np.random.multinomial\<close>.
\<close>

definition sample_pvals :: "float64 list \<Rightarrow> float64 \<Rightarrow> float64 list" where
  "sample_pvals preds temperature =
     (let preds' = map (\<lambda>p. f64_div (np_log p) temperature) preds;
          exp_preds = map np_exp preds'
      in map (\<lambda>e. f64_div e (np_sum exp_preds)) exp_preds)"

text \<open>
  \<^verbatim>\<open>np.random.multinomial(1, pvals, 1)\<close> belongs to numpy, not to the notebook; it is
  modelled from numpy's documentation and algorithm. It raises ValueError unless every
  entry of \<open>pvals\<close> lies in \<open>[0, 1]\<close> (a NaN does not) and the entries before the last
  sum to at most \<open>1 + 1e-12\<close>. Otherwise it returns one row of counts with a single 1:
  category \<open>j\<close> before the last is drawn with probability \<open>pvals[j]\<close>, and the last
  category takes what remains. The random choice is made explicit as one variate \<open>u\<close>,
  uniform on \<open>[0, 1)\<close>, by inversion: the category is the first \<open>j\<close> whose cumulative
  sum exceeds \<open>u\<close>, so the variates that select \<open>j\<close> form an interval of length
  \<open>pvals[j]\<close>.
\<close>

fun in_unit_interval :: "float64 \<Rightarrow> bool" where
  "in_unit_interval (Fin x) = (0 \<le> x \<and> x \<le> 1)"
| "in_unit_interval a = False"

fun fin_value :: "float64 \<Rightarrow> real" where
  "fin_value (Fin x) = x"
| "fin_value a = 0"

definition pvals_ok :: "float64 list \<Rightarrow> bool" where
  "pvals_ok pvals \<longleftrightarrow>
     list_all in_unit_interval pvals \<and>
     sum_list (map fin_value (butlast pvals)) \<le> 1 + 1 / 10 ^ 12"

fun categorical :: "real list \<Rightarrow> real \<Rightarrow> nat" where
  "categorical [] u = 0"
| "categorical [p] u = 0"
| "categorical (p # q # ps) u = (if u < p then 0 else Suc (categorical (q # ps) (u - p)))"

definition multinomial :: "float64 list \<Rightarrow> real \<Rightarrow> error + nat list" where
  "multinomial pvals u =
     (if pvals_ok pvals
      then Inr ((replicate (length pvals) 0)[categorical (map fin_value pvals) u := 1])
      else Inl ValueError)"

text \<open>
  \<^verbatim>\<open>np.argmax\<close>: the index of the first maximal entry; ValueError on an empty array.
\<close>

definition np_argmax :: "nat list \<Rightarrow> error + nat" where
  "np_argmax xs =
     (case xs of
        [] \<Rightarrow> Inl ValueError
      | y # ys \<Rightarrow> Inr (length (takeWhile (\<lambda>x. x \<noteq> fold max ys y) xs)))"

definition sample :: "float64 list \<Rightarrow> float64 \<Rightarrow> real \<Rightarrow> error + nat" where
  "sample preds temperature u =
     (case multinomial (sample_pvals preds temperature) u of
        Inl e \<Rightarrow> Inl e
      | Inr probas \<Rightarrow> np_argmax probas)"

subsection \<open>Autoregressive generator\<close>

text \<open>
  \<^verbatim>\<open>generate\<close> reads the module-level names \<^verbatim>\<open>X\<close> (only its shape),
  \<^verbatim>\<open>char_to_int\<close>, \<^verbatim>\<open>int_to_char\<close> and \<^verbatim>\<open>model\<close>, draws from numpy's global
  random generator and writes to \<^verbatim>\<open>sys.stdout\<close>. The state is passed explicitly:
  the four module-level values, the random generator (the sequence of uniform variates
  that drive the successive \<^verbatim>\<open>multinomial\<close> calls), what has been written to stdout,
  and the two local variables \<^verbatim>\<open>sentence\<close> and \<^verbatim>\<open>generated\<close>.

  \<open>model_predict s x\<close> stands for \<^verbatim>\<open>model.predict(x, verbose=0)[0]\<close>, where \<open>x\<close> is the
  single \<open>(L, V)\<close> sample of the \<open>(1, L, V)\<close> array. The model belongs to Keras; it is
  a parameter, and it may raise.
\<close>

datatype out_event =
    Print_diversity float64
  | Write string
  | Flush
  | Print_newline

record state =
  X_shape :: "nat \<times> nat \<times> nat"
  char_to_int_g :: "char \<rightharpoonup> nat"
  int_to_char_g :: "nat \<rightharpoonup> char"
  model_predict :: "real list list \<Rightarrow> error + float64 list"
  rng :: "nat \<Rightarrow> real"
  stdout :: "out_event list"
  sentence :: string
  generated :: string

text \<open>\<^verbatim>\<open>np.zeros((1, X.shape[1], X.shape[2]))\<close>, without the leading axis of length 1.\<close>

definition np_zeros :: "nat \<Rightarrow> nat \<Rightarrow> real list list" where
  "np_zeros L V = replicate L (replicate V 0)"

text \<open>\<^verbatim>\<open>x[0, t, j] = 1.\<close> raises IndexError when an index is out of bounds.\<close>

definition set_one :: "real list list \<Rightarrow> nat \<Rightarrow> nat \<Rightarrow> error + real list list" where
  "set_one x t j =
     (if t < length x \<and> j < length (x ! t)
      then Inr (x[t := (x ! t)[j := 1]])
      else Inl IndexError)"

text \<open>
  \<^verbatim>\<open>
  for t, char in enumerate(sentence):
      x[0, t, char_to_int[char]] = 1.
  \<close>
  The dictionary lookup comes first and raises KeyError on an unknown character.
\<close>

fun encode_loop ::
  "(char \<rightharpoonup> nat) \<Rightarrow> (nat \<times> char) list \<Rightarrow> real list list \<Rightarrow> error + real list list" where
  "encode_loop c2i [] x = Inr x"
| "encode_loop c2i ((t, ch) # rest) x =
     (case c2i ch of
        None \<Rightarrow> Inl KeyError
      | Some j \<Rightarrow>
          (case set_one x t j of
             Inl e \<Rightarrow> Inl e
           | Inr x' \<Rightarrow> encode_loop c2i rest x'))"

definition encode :: "state \<Rightarrow> error + real list list" where
  "encode s =
     (case X_shape s of
        (n, L, V) \<Rightarrow> encode_loop (char_to_int_g s) (List.enumerate 0 (sentence s)) (np_zeros L V))"

text \<open>
  One iteration of the loop of \<^verbatim>\<open>generate\<close>. A failure is returned with the state in
  which it happened. \<^verbatim>\<open>sentence[1:]\<close> is \<open>drop 1\<close>: on the empty string it is empty.
\<close>

definition gen_step :: "float64 \<Rightarrow> state \<Rightarrow> (error \<times> state) + state" where
  "gen_step diversity s =
     (case encode s of
        Inl e \<Rightarrow> Inl (e, s)
      | Inr x \<Rightarrow>
          (case model_predict s x of
             Inl e \<Rightarrow> Inl (e, s)
           | Inr preds \<Rightarrow>
               (case sample preds diversity (rng s 0) of
                  Inl e \<Rightarrow> Inl (e, s)
                | Inr next_index \<Rightarrow>
                    (let s1 = s\<lparr>rng := (\<lambda>i. rng s (Suc i))\<rparr> in
                     case int_to_char_g s1 next_index of
                       None \<Rightarrow> Inl (KeyError, s1)
                     | Some next_char \<Rightarrow>
                         Inr (s1\<lparr>generated := generated s1 @ [next_char],
                                 sentence := drop 1 (sentence s1) @ [next_char],
                                 stdout := stdout s1 @ [Write [next_char], Flush]\<rparr>)))))"

fun gen_loop :: "nat \<Rightarrow> float64 \<Rightarrow> state \<Rightarrow> (error \<times> state) + state" where
  "gen_loop 0 diversity s = Inr s"
| "gen_loop (Suc n) diversity s =
     (case gen_step diversity s of
        Inl e \<Rightarrow> Inl e
      | Inr s' \<Rightarrow> gen_loop n diversity s')"

text \<open>
  The state on entry to the loop: the diversity line is printed, both locals are bound to
  the seed, and the seed is written.
\<close>

definition gen_init :: "string \<Rightarrow> float64 \<Rightarrow> state \<Rightarrow> state" where
  "gen_init seed diversity s =
     s\<lparr>stdout := stdout s @ [Print_diversity diversity, Write seed],
       generated := seed,
       sentence := seed\<rparr>"

text \<open>
  \<^verbatim>\<open>generate(sentence, prediction_length, diversity)\<close>.
  \<^verbatim>\<open>range(prediction_length)\<close> is empty for a negative length. The Python function
  returns \<^verbatim>\<open>None\<close>; the embedding returns the final state, which holds what was written and
  the final value of the buffer \<^verbatim>\<open>generated\<close>.
\<close>

definition generate :: "string \<Rightarrow> int \<Rightarrow> float64 \<Rightarrow> state \<Rightarrow> (error \<times> state) + state" where
  "generate seed prediction_length diversity s =
     (case gen_loop (nat prediction_length) diversity (gen_init seed diversity s) of
        Inl e \<Rightarrow> Inl e
      | Inr s' \<Rightarrow> Inr (s'\<lparr>stdout := stdout s' @ [Print_newline]\<rparr>))"

text \<open>The characters written to stdout by \<^verbatim>\<open>sys.stdout.write\<close>, in order.\<close>

fun written :: "out_event list \<Rightarrow> string" where
  "written [] = []"
| "written (Write cs # os) = cs @ written os"
| "written (other # os) = written os"

text \<open>
  What \<^verbatim>\<open>generate\<close> relies on, as the notebook sets it up from a corpus: the two
  dictionaries are those of the vocabulary indexer, \<^verbatim>\<open>X.shape[2]\<close> is the vocabulary
  size, \<^verbatim>\<open>X.shape[1]\<close> is the window length (the notebook fixes it at 100; here it is
  any positive number), and the model answers every input with a vector over the
  vocabulary.
\<close>

definition gen_ready :: "string \<Rightarrow> state \<Rightarrow> bool" where
  "gen_ready raw_text s \<longleftrightarrow>
     0 < fst (snd (X_shape s)) \<and>
     snd (snd (X_shape s)) = n_vocab raw_text \<and>
     char_to_int_g s = char_to_int raw_text \<and>
     int_to_char_g s = int_to_char raw_text \<and>
     (\<forall>x. \<exists>preds. model_predict s x = Inr preds \<and> length preds = n_vocab raw_text)"

text \<open>
  The sampler returns an index, at the given temperature, on every vector the model can
  answer with. It does not when the vector it normalises has no positive finite sum: at
  a small temperature every \<^verbatim>\<open>exp(log(p) / temperature)\<close> underflows to zero, the
  normalisation is \<open>0/0\<close>, and \<^verbatim>\<open>multinomial\<close> raises ValueError.
\<close>

definition sampler_returns :: "float64 \<Rightarrow> state \<Rightarrow> bool" where
  "sampler_returns diversity s \<longleftrightarrow>
     (\<forall>x preds u. model_predict s x = Inr preds \<longrightarrow> (\<exists>i. sample preds diversity u = Inr i))"

text \<open>
  The part of the state that \<^verbatim>\<open>generate\<close> only reads: the shape of \<^verbatim>\<open>X\<close>, the two
  vocabulary dictionaries and the trained model. \<open>outcome_state\<close> is the state a call
  ends in, whether it returned or raised.
\<close>

definition same_globals :: "state \<Rightarrow> state \<Rightarrow> bool" where
  "same_globals s' s \<longleftrightarrow>
     X_shape s' = X_shape s \<and>
     char_to_int_g s' = char_to_int_g s \<and>
     int_to_char_g s' = int_to_char_g s \<and>
     model_predict s' = model_predict s"

fun outcome_state :: "(error \<times> state) + state \<Rightarrow> state" where
  "outcome_state (Inl (e, s)) = s"
| "outcome_state (Inr s) = s"

text \<open>
  Two small instances for the examples: the vocabulary of the corpus \<open>ab\<close>, window
  length 2, and a model that always puts all the mass on \<open>b\<close>, or always answers with
  the uniform distribution.
\<close>

definition example_state :: state where
  "example_state =
     \<lparr>X_shape = (1, 2, 2),
      char_to_int_g = char_to_int ''ab'',
      int_to_char_g = int_to_char ''ab'',
      model_predict = (\<lambda>x. Inr [Fin 0, Fin 1]),
      rng = (\<lambda>i. 1 / 2),
      stdout = [],
      sentence = [],
      generated = []\<rparr>"

definition uniform_state :: state where
  "uniform_state = example_state\<lparr>model_predict := (\<lambda>x. Inr [Fin (1 / 2), Fin (1 / 2)])\<rparr>"

section \<open>Properties\<close>

subsection \<open>Vocabulary indexer\<close>

lemma chars_sorted: "sorted (chars raw)" by (simp add: chars_def)
lemma chars_distinct: "distinct (chars raw)" by (simp add: chars_def)
lemma chars_set: "set (chars raw) = set raw" by (simp add: chars_def)

lemma chars_any_enumeration:
  "distinct xs \<Longrightarrow> set xs = set raw \<Longrightarrow> sort xs = chars raw"
  unfolding chars_def
  by (metis distinct_remdups distinct_sort set_remdups set_sort sorted_distinct_set_unique sorted_sort)

lemma dict_distinct: "distinct (map fst kvs) \<Longrightarrow> dict kvs = map_of kvs"
proof -
  assume d: "distinct (map fst kvs)"
  then have "distinct (map fst (rev kvs))" by (simp add: rev_map[symmetric])
  with d have "map_of (rev kvs) = map_of kvs"
    using map_of_inject_set[of "rev kvs" kvs] by simp
  then show ?thesis by (simp add: dict_def)
qed

lemma char_to_int_zip:
  "char_to_int raw = map_of (zip (chars raw) [0..<length (chars raw)])"
proof -
  have e: "map (\<lambda>(i, c). (c, i)) (List.enumerate 0 (chars raw)) = zip (chars raw) [0..<length (chars raw)]"
    using zip_commute[of "chars raw" "[0..<length (chars raw)]"] by (simp add: enumerate_eq_zip)
  show ?thesis unfolding char_to_int_def e
    by (rule dict_distinct) (simp add: chars_distinct)
qed

lemma int_to_char_zip:
  "int_to_char raw = map_of (zip [0..<length (chars raw)] (chars raw))"
proof -
  have e: "map (\<lambda>(i, c). (i, c)) (List.enumerate 0 (chars raw)) = zip [0..<length (chars raw)] (chars raw)"
    by (simp add: enumerate_eq_zip)
  show ?thesis unfolding int_to_char_def e
    by (rule dict_distinct) simp
qed

lemma char_to_int_nth: "i < n_vocab raw \<Longrightarrow> char_to_int raw (chars raw ! i) = Some i"
  unfolding char_to_int_zip n_vocab_def
  using map_of_zip_nth[of "chars raw" "[0..<length (chars raw)]" i]
  by (simp add: chars_distinct)

lemma int_to_char_nth: "i < n_vocab raw \<Longrightarrow> int_to_char raw i = Some (chars raw ! i)"
  unfolding int_to_char_zip n_vocab_def
  using map_of_zip_nth[of "[0..<length (chars raw)]" "chars raw" i]
  by simp

lemma dom_char_to_int: "dom (char_to_int raw) = set raw"
  unfolding char_to_int_zip by (simp add: chars_set)

lemma dom_int_to_char: "dom (int_to_char raw) = {0..<n_vocab raw}"
  unfolding int_to_char_zip n_vocab_def by simp

lemma char_to_int_Some_iff:
  "char_to_int raw c = Some i \<longleftrightarrow> i < n_vocab raw \<and> chars raw ! i = c"
proof
  assume a: "char_to_int raw c = Some i"
  then have "c \<in> set (chars raw)" using dom_char_to_int[of raw] chars_set[of raw] by auto
  then obtain j where j: "j < length (chars raw)" "chars raw ! j = c"
    by (auto simp: in_set_conv_nth)
  with char_to_int_nth[of j raw] a have "i = j" by (simp add: n_vocab_def)
  with j show "i < n_vocab raw \<and> chars raw ! i = c" by (simp add: n_vocab_def)
next
  assume "i < n_vocab raw \<and> chars raw ! i = c"
  then show "char_to_int raw c = Some i" using char_to_int_nth by blast
qed

lemma int_to_char_Some_iff:
  "int_to_char raw i = Some c \<longleftrightarrow> i < n_vocab raw \<and> chars raw ! i = c"
proof
  assume a: "int_to_char raw i = Some c"
  then have "i < n_vocab raw" using dom_int_to_char[of raw] by auto
  with a int_to_char_nth[of i raw] show "i < n_vocab raw \<and> chars raw ! i = c" by simp
next
  assume "i < n_vocab raw \<and> chars raw ! i = c"
  then show "int_to_char raw i = Some c" using int_to_char_nth by blast
qed

lemma ran_int_to_char: "ran (int_to_char raw_text) = set raw_text"
proof -
  have "ran (int_to_char raw_text) = {c. \<exists>i. i < length (chars raw_text) \<and> chars raw_text ! i = c}"
    unfolding ran_def by (simp add: int_to_char_Some_iff n_vocab_def)
  also have "\<dots> = set (chars raw_text)"
    by (simp add: set_conv_nth) blast
  finally show ?thesis by (simp add: chars_set)
qed

text \<open>
  Claim C6. The vocabulary indexer numbers the distinct characters of the corpus
  consecutively in ascending character order; \<open>char_to_int\<close> and \<open>int_to_char\<close> are
  inverse to each other and cover exactly the characters of the corpus (and the indices
  below \<open>n_vocab\<close>), so decoding an encoded corpus character gives it back. The result
  does not depend on the order in which the Python set is enumerated: sorting any
  duplicate-free enumeration of the corpus characters gives \<open>chars\<close>.
\<close>

theorem vocabulary_mappings:
  "sorted (chars raw_text) \<and> distinct (chars raw_text) \<and> set (chars raw_text) = set raw_text \<and>
   (\<forall>i < n_vocab raw_text.
      char_to_int raw_text (chars raw_text ! i) = Some i \<and>
      int_to_char raw_text i = Some (chars raw_text ! i)) \<and>
   dom (char_to_int raw_text) = set raw_text \<and>
   dom (int_to_char raw_text) = {0..<n_vocab raw_text} \<and>
   ran (int_to_char raw_text) = set raw_text \<and>
   ran (char_to_int raw_text) = {0..<n_vocab raw_text} \<and>
   (\<forall>c i. char_to_int raw_text c = Some i \<longleftrightarrow> int_to_char raw_text i = Some c) \<and>
   (\<forall>c \<in> set raw_text. \<exists>i. char_to_int raw_text c = Some i \<and> int_to_char raw_text i = Some c) \<and>
   (\<forall>xs. distinct xs \<and> set xs = set raw_text \<longrightarrow> sort xs = chars raw_text) \<and>
   (raw_text \<noteq> [] \<longrightarrow> 0 < n_vocab raw_text)"
proof -
  have idx: "\<forall>i < n_vocab raw_text.
      char_to_int raw_text (chars raw_text ! i) = Some i \<and>
      int_to_char raw_text i = Some (chars raw_text ! i)"
    by (simp add: char_to_int_nth int_to_char_nth)
  have inv: "\<forall>c i. char_to_int raw_text c = Some i \<longleftrightarrow> int_to_char raw_text i = Some c"
    by (simp add: char_to_int_Some_iff int_to_char_Some_iff)
  have r2: "ran (char_to_int raw_text) = {0..<n_vocab raw_text}"
    unfolding ran_def by (auto simp: char_to_int_Some_iff)
  have rt: "\<forall>c \<in> set raw_text. \<exists>i. char_to_int raw_text c = Some i \<and> int_to_char raw_text i = Some c"
  proof
    fix c assume "c \<in> set raw_text"
    then have "c \<in> dom (char_to_int raw_text)" by (simp add: dom_char_to_int)
    then obtain i where i: "char_to_int raw_text c = Some i" by blast
    with inv have "int_to_char raw_text i = Some c" by blast
    with i show "\<exists>i. char_to_int raw_text c = Some i \<and> int_to_char raw_text i = Some c" by blast
  qed
  have det: "\<forall>xs. distinct xs \<and> set xs = set raw_text \<longrightarrow> sort xs = chars raw_text"
    by (simp add: chars_any_enumeration)
  have ne: "raw_text \<noteq> [] \<longrightarrow> 0 < n_vocab raw_text"
    using chars_set[of raw_text] by (cases "chars raw_text") (auto simp: n_vocab_def)
  show ?thesis
    by (intro conjI chars_sorted chars_distinct chars_set idx dom_char_to_int dom_int_to_char
        ran_int_to_char r2 inv rt det ne)
qed

theorem vocabulary_mappings_witness:
  "chars ''aab'' = ''ab'' \<and> char_to_int ''aab'' CHR ''a'' = Some 0 \<and>
   int_to_char ''aab'' 1 = Some CHR ''b'' \<and>
   (\<exists>i. char_to_int ''aab'' CHR ''b'' = Some i \<and> int_to_char ''aab'' i = Some CHR ''b'')"
proof -
  note v = vocabulary_mappings[of "''aab''"]
  have cs: "chars ''aab'' = ''ab''" by (simp add: chars_def)
  have n: "n_vocab ''aab'' = 2" by (simp add: n_vocab_def cs)
  from v have "\<forall>i < n_vocab ''aab''.
      char_to_int ''aab'' (chars ''aab'' ! i) = Some i \<and>
      int_to_char ''aab'' i = Some (chars ''aab'' ! i)" by blast
  then have a: "char_to_int ''aab'' (chars ''aab'' ! 0) = Some 0"
    and b: "int_to_char ''aab'' 1 = Some (chars ''aab'' ! 1)"
    using n by simp_all
  from v have "\<forall>c \<in> set ''aab''. \<exists>i. char_to_int ''aab'' c = Some i \<and> int_to_char ''aab'' i = Some c"
    by blast
  then have c: "\<exists>i. char_to_int ''aab'' CHR ''b'' = Some i \<and> int_to_char ''aab'' i = Some CHR ''b''"
    by simp
  from a b c cs show ?thesis by simp
qed

subsection \<open>Windowing loop\<close>

lemma window_loop_eq:
  "\<forall>i \<in> set js. i + seq_length < length raw_text \<Longrightarrow>
   window_loop raw_text seq_length js acc =
     Inr (fst acc @ map (\<lambda>i. take seq_length (drop i raw_text)) js,
          snd acc @ map (\<lambda>i. raw_text ! (i + seq_length)) js)"
  by (induction js arbitrary: acc) (simp_all add: window_step_def)

lemma windows_eq:
  "windows raw_text seq_length =
     Inr (map (\<lambda>i. take seq_length (drop i raw_text)) [0..<length raw_text - seq_length],
          map (\<lambda>i. raw_text ! (i + seq_length)) [0..<length raw_text - seq_length])"
  unfolding windows_def by (subst window_loop_eq) auto

text \<open>
  Claim C4. When the corpus is longer than the window, the windowing loop finishes
  without an error and yields exactly \<open>n - L\<close> pairs; pair \<open>i\<close> is the slice of
  length \<open>L\<close> starting at position \<open>i\<close> together with the character at position
  \<open>i + L\<close>. A corpus of 105 characters and a window of 100 give 5 pairs.
\<close>

theorem windows_pairs:
  assumes "seq_length < length raw_text"
  shows "\<exists>inputs outputs.
           windows raw_text seq_length = Inr (inputs, outputs) \<and>
           length inputs = length raw_text - seq_length \<and>
           length outputs = length raw_text - seq_length \<and>
           (\<forall>i < length raw_text - seq_length.
              inputs ! i = take seq_length (drop i raw_text) \<and>
              length (inputs ! i) = seq_length \<and>
              outputs ! i = raw_text ! (i + seq_length)) \<and>
           (length raw_text = 105 \<and> seq_length = 100 \<longrightarrow>
              length inputs = 5 \<and> length outputs = 5)"
  using assms by (simp add: windows_eq)

theorem windows_pairs_witness:
  "(5::nat) < length ''abcdefg'' \<and>
   windows ''abcdefg'' 5 = Inr ([''abcde'', ''bcdef''], ''fg'')"
proof -
  have h: "(5::nat) < length ''abcdefg''" by simp
  from windows_pairs[OF h] obtain inputs outputs where
    w: "windows ''abcdefg'' 5 = Inr (inputs, outputs)"
    and l: "length inputs = length ''abcdefg'' - 5" "length outputs = length ''abcdefg'' - 5"
    and c: "\<forall>i < length ''abcdefg'' - 5.
              inputs ! i = take 5 (drop i ''abcdefg'') \<and>
              length (inputs ! i) = 5 \<and>
              outputs ! i = ''abcdefg'' ! (i + 5)"
    by blast
  from c have "inputs ! 0 = ''abcde''" "inputs ! 1 = ''bcdef''"
    "outputs ! 0 = CHR ''f''" "outputs ! 1 = CHR ''g''" by simp_all
  moreover from l have "length inputs = 2" "length outputs = 2" by simp_all
  ultimately have "inputs = [''abcde'', ''bcdef'']" "outputs = ''fg''"
    by (auto simp: list_eq_iff_nth_eq less_Suc_eq numeral_2_eq_2)
  with w h show ?thesis by simp
qed

text \<open>
  Claim C5 says that a corpus no longer than the window yields no pair and that an error
  is signalled. The loop yields no pair, but it returns normally: on the two-character
  corpus with window 100 the result is the pair of empty lists, not an error.
\<close>

theorem windows_short_corpus_counterexample:
  "length ''ab'' \<le> (100::nat) \<and> windows ''ab'' 100 = Inr ([], []) \<and> \<not> isl (windows ''ab'' 100)"
  by (simp add: windows_def)

text \<open>
  Claim C5, amended. For every corpus whose length is at most the window length the
  windowing loop produces zero pairs and returns normally; no error is signalled.
\<close>

theorem windows_short_corpus:
  assumes "length raw_text \<le> seq_length"
  shows "windows raw_text seq_length = Inr ([], [])"
  using assms by (simp add: windows_def)

theorem windows_short_corpus_witness:
  "length ''hello'' \<le> (5::nat) \<and> windows ''hello'' 5 = Inr ([], [])"
proof -
  have h: "length ''hello'' \<le> (5::nat)" by simp
  from windows_short_corpus[OF h] h show ?thesis by simp
qed

subsection \<open>Temperature sampler\<close>

lemma categorical_less: "ps \<noteq> [] \<Longrightarrow> categorical ps u < length ps"
  by (induction ps u rule: categorical.induct) auto

lemma sum_list_take_nonneg:
  fixes ps :: "real list"
  shows "\<forall>p \<in> set ps. 0 \<le> p \<Longrightarrow> 0 \<le> sum_list (take j ps)"
  by (meson in_set_takeD sum_list_nonneg)

lemma categorical_interval:
  assumes "i < length ps" and "\<forall>p \<in> set ps. 0 \<le> p"
  shows "categorical ps u = i \<longleftrightarrow>
           (i = 0 \<or> sum_list (take i ps) \<le> u) \<and>
           (Suc i = length ps \<or> u < sum_list (take (Suc i) ps))"
  using assms
proof (induction ps u arbitrary: i rule: categorical.induct)
  case (1 u)
  then show ?case by simp
next
  case (2 p u)
  then show ?case by simp
next
  case (3 p q ps u)
  show ?case
  proof (cases i)
    case 0
    then show ?thesis by simp
  next
    case (Suc j)
    have nn: "0 \<le> sum_list (take j (q # ps))"
      using "3.prems"(2) by (intro sum_list_take_nonneg) simp
    show ?thesis
    proof (cases "u < p")
      case True
      with Suc nn show ?thesis by (cases j) auto
    next
      case False
      have j: "j < length (q # ps)" using "3.prems"(1) Suc by simp
      have pos: "\<forall>p \<in> set (q # ps). 0 \<le> p" using "3.prems"(2) by simp
      from "3.IH"[OF False j pos] False Suc nn show ?thesis
        by (cases j) auto
    qed
  qed
qed

lemma fold_max_eq:
  fixes b :: nat
  assumes "\<forall>x \<in> set (y # ys). x \<le> b" and "b \<in> set (y # ys)"
  shows "fold max ys y = b"
proof -
  have "fold max ys y = Max (set (y # ys))" by (rule Max.set_eq_fold[symmetric])
  also have "\<dots> = b" using assms by (intro Max_eqI) auto
  finally show ?thesis .
qed

lemma takeWhile_zeros:
  "takeWhile (\<lambda>x. x \<noteq> 1) (replicate k (0::nat) @ 1 # zs) = replicate k 0"
  by (induction k) simp_all

lemma np_argmax_one_hot:
  assumes "k < n"
  shows "np_argmax ((replicate n 0)[k := 1]) = Inr k"
proof -
  define xs where "xs = replicate k (0::nat) @ 1 # replicate (n - Suc k) 0"
  have eq: "(replicate n 0)[k := 1] = xs"
    using assms by (simp add: xs_def upd_conv_take_nth_drop min_def)
  obtain y ys where l: "xs = y # ys" by (cases xs) (auto simp: xs_def)
  have "fold max ys y = 1"
    by (rule fold_max_eq) (auto simp: l[symmetric] xs_def)
  moreover have "takeWhile (\<lambda>x. x \<noteq> 1) xs = replicate k 0"
    unfolding xs_def by (rule takeWhile_zeros)
  ultimately show ?thesis
    unfolding eq np_argmax_def l list.case using l by simp
qed

lemma one_hot_list:
  fixes xs :: "real list"
  assumes "k < length xs" and "xs ! k = 1" and "\<forall>j < length xs. j \<noteq> k \<longrightarrow> xs ! j = 0"
  shows "xs = replicate k 0 @ 1 # replicate (length xs - Suc k) 0"
proof (rule nth_equalityI)
  show "length xs = length (replicate k 0 @ 1 # replicate (length xs - Suc k) (0::real))"
    using assms(1) by simp
next
  fix i assume i: "i < length xs"
  consider "i < k" | "i = k" | "k < i" by linarith
  then show "xs ! i = (replicate k 0 @ 1 # replicate (length xs - Suc k) 0) ! i"
  proof cases
    case 1
    with assms(3) i show ?thesis by (simp add: nth_append)
  next
    case 2
    with assms(2) show ?thesis by (simp add: nth_append)
  next
    case 3
    then have "xs ! i = 0" using assms(3) i by simp
    moreover have "i - k - 1 < length xs - Suc k" using 3 i by linarith
    ultimately show ?thesis using 3 by (simp add: nth_append nth_Cons')
  qed
qed

lemma f64_overflow_large: "2 ^ 970 \<le> f64_overflow"
proof -
  have "f64_overflow = 2 ^ 970 * (2 ^ 54 - 1)"
    by (simp add: f64_overflow_def algebra_simps power_add[symmetric])
  moreover have "(1::real) \<le> 2 ^ 54 - 1" by simp
  ultimately show ?thesis by (simp add: mult_le_cancel_left1)
qed

lemma f64_overflow_gt: "x \<le> 2 ^ 12 \<Longrightarrow> x < f64_overflow"
proof -
  assume "x \<le> 2 ^ 12"
  moreover have "(2::real) ^ 12 < 2 ^ 970" by (rule power_strict_increasing) simp_all
  ultimately show ?thesis using f64_overflow_large by linarith
qed

lemma f64_underflow_small: "0 < f64_underflow" "f64_underflow \<le> 1 / 2 ^ 12"
proof -
  show "0 < f64_underflow" by (simp add: f64_underflow_def)
  have "(2::real) ^ 12 \<le> 2 ^ 1075" by (rule power_increasing) simp_all
  then show "f64_underflow \<le> 1 / 2 ^ 12"
    unfolding f64_underflow_def by (simp add: frac_le)
qed

lemma f64_of_real_in_range:
  assumes "1 / 2 ^ 12 < \<bar>x\<bar>" and "\<bar>x\<bar> \<le> 2 ^ 12"
  shows "f64_of_real x = Fin x"
proof -
  have a: "x \<le> 2 ^ 12" and b: "- x \<le> 2 ^ 12" using assms(2) by linarith+
  have "x < f64_overflow" by (rule f64_overflow_gt[OF a])
  moreover have "- x < f64_overflow" by (rule f64_overflow_gt[OF b])
  then have "- f64_overflow < x" by linarith
  moreover have "f64_underflow < \<bar>x\<bar>" using assms(1) f64_underflow_small(2) by linarith
  ultimately show ?thesis by (simp add: f64_of_real_def)
qed

lemma f64_of_real_0: "f64_of_real 0 = Fin 0"
  using f64_underflow_small(1) f64_overflow_gt[of 0] by (simp add: f64_of_real_def)

lemma f64_of_real_1: "f64_of_real 1 = Fin 1"
  by (rule f64_of_real_in_range) simp_all

lemma length_sample_pvals: "length (sample_pvals preds d) = length preds"
  by (simp add: sample_pvals_def Let_def)

lemma sample_accepts:
  assumes "pvals_ok (sample_pvals preds d)" and "preds \<noteq> []"
  shows "sample preds d u =
           Inr (categorical (map fin_value (sample_pvals preds d)) u) \<and>
         categorical (map fin_value (sample_pvals preds d)) u < length preds"
proof -
  let ?pv = "sample_pvals preds d"
  have ne: "map fin_value ?pv \<noteq> []" using assms(2) length_sample_pvals[of preds d] by auto
  have lt: "categorical (map fin_value ?pv) u < length ?pv"
    using categorical_less[OF ne, of u] by simp
  have "sample preds d u = np_argmax ((replicate (length ?pv) 0)[categorical (map fin_value ?pv) u := 1])"
    using assms(1) by (simp add: sample_def multinomial_def)
  with np_argmax_one_hot[OF lt] lt show ?thesis by (simp add: length_sample_pvals)
qed

lemma sample_rejects:
  assumes "\<not> pvals_ok (sample_pvals preds d)"
  shows "sample preds d u = Inl ValueError"
  using assms by (simp add: sample_def multinomial_def)

lemma sample_empty: "sample [] d u = Inl ValueError"
  by (simp add: sample_def multinomial_def sample_pvals_def np_argmax_def)

lemma sample_index_bound:
  assumes "sample preds d u = Inr i"
  shows "i < length preds"
proof (cases "pvals_ok (sample_pvals preds d) \<and> preds \<noteq> []")
  case True
  with sample_accepts[of preds d u] assms show ?thesis by simp
next
  case False
  then have "sample preds d u = Inl ValueError"
    using sample_rejects[of preds d u] sample_empty[of d u] by blast
  with assms show ?thesis by simp
qed

lemma np_sum_one_hot:
  "np_sum (map Fin (replicate k 0 @ 1 # replicate m 0)) = Fin 1"
proof -
  have z: "np_sum (replicate m (Fin 0)) = Fin 0" for m
    by (induction m) (simp_all add: f64_of_real_0)
  show ?thesis
    by (induction k) (simp_all add: z f64_of_real_1)
qed

lemma tempered_zero:
  "0 < t \<Longrightarrow> np_exp (f64_div (np_log (Fin 0)) (Fin t)) = Fin 0"
  by simp

lemma tempered_one:
  "0 < t \<Longrightarrow> np_exp (f64_div (np_log (Fin 1)) (Fin t)) = Fin 1"
  by (simp add: f64_of_real_0 f64_of_real_1)

lemma sample_pvals_one_hot:
  assumes "0 < t"
  shows "sample_pvals (map Fin (replicate k 0 @ 1 # replicate m 0)) (Fin t) =
           map Fin (replicate k 0 @ 1 # replicate m 0)"
proof -
  let ?xs = "replicate k 0 @ (1::real) # replicate m 0"
  have w: "np_exp (f64_div (np_log (Fin x)) (Fin t)) = Fin x" if "x \<in> set ?xs" for x
  proof -
    from that have "x = 0 \<or> x = 1" by auto
    then show ?thesis using tempered_zero[OF assms] tempered_one[OF assms] by blast
  qed
  have e: "map np_exp (map (\<lambda>p. f64_div (np_log p) (Fin t)) (map Fin ?xs)) = map Fin ?xs"
    unfolding map_map comp_def by (rule map_cong[OF refl]) (rule w)
  have q: "f64_div (Fin x) (Fin 1) = Fin x" if "x \<in> set ?xs" for x
  proof -
    from that have "x = 0 \<or> x = 1" by auto
    then show ?thesis by (auto simp: f64_of_real_0 f64_of_real_1)
  qed
  have "map (\<lambda>e. f64_div e (Fin 1)) (map Fin ?xs) = map Fin ?xs"
    unfolding map_map comp_def by (rule map_cong[OF refl]) (rule q)
  then show ?thesis
    unfolding sample_pvals_def Let_def e np_sum_one_hot .
qed

lemma sum_list_butlast_le:
  fixes ps :: "real list"
  assumes "\<forall>p \<in> set ps. 0 \<le> p"
  shows "sum_list (butlast ps) \<le> sum_list ps"
proof (cases "ps = []")
  case True
  then show ?thesis by simp
next
  case False
  then have "ps = butlast ps @ [last ps]" by simp
  then have "sum_list ps = sum_list (butlast ps) + last ps"
    by (metis sum_list.append sum_list.Cons sum_list.Nil add.right_neutral)
  moreover have "0 \<le> last ps" using assms False by simp
  ultimately show ?thesis by linarith
qed

lemma pvals_ok_one_hot: "pvals_ok (map Fin (replicate k 0 @ 1 # replicate m 0))"
proof -
  let ?xs = "replicate k 0 @ (1::real) # replicate m 0"
  have a: "list_all in_unit_interval (map Fin ?xs)" by (auto simp: list_all_iff)
  have "sum_list (butlast ?xs) \<le> sum_list ?xs"
    by (rule sum_list_butlast_le) auto
  then have "sum_list (butlast ?xs) \<le> 1" by (simp add: sum_list_replicate)
  moreover have "map fin_value (butlast (map Fin ?xs)) = butlast ?xs"
    by (simp only: map_butlast map_map comp_def fin_value.simps list.map_ident)
  ultimately have "sum_list (map fin_value (butlast (map Fin ?xs))) \<le> 1 + 1 / 10 ^ 12"
    by (simp only:) simp
  with a show ?thesis unfolding pvals_ok_def by blast
qed

text \<open>
  Claim C2. For a vector with one entry equal to 1 and every other entry equal to 0, at
  any temperature \<open>t > 0\<close>, \<open>sample\<close> returns the index of the unit entry for every
  uniform variate in \<open>[0, 1)\<close>: the logarithm of a zero entry is \<open>-inf\<close>, which the
  exponential maps back to 0, so the vector handed to the draw is the input itself.
  Every value involved is one of 0, 1 and \<open>-inf\<close>, on which float64 arithmetic is exact.
\<close>

theorem sample_degenerate:
  assumes "k < length xs" and "xs ! k = 1" and "\<forall>j < length xs. j \<noteq> k \<longrightarrow> xs ! j = 0"
    and "0 < t" and "0 \<le> u" and "u < 1"
  shows "np_log (Fin 0) = NegInf \<and>
         sample_pvals (map Fin xs) (Fin t) = map Fin xs \<and>
         sample (map Fin xs) (Fin t) u = Inr k"
proof -
  define m where "m = length xs - Suc k"
  have xs: "xs = replicate k 0 @ 1 # replicate m 0"
    unfolding m_def by (rule one_hot_list[OF assms(1-3)])
  have nn: "\<forall>x \<in> set xs. 0 \<le> x" by (subst xs) auto
  have pv: "sample_pvals (map Fin xs) (Fin t) = map Fin xs"
    by (subst (1 2) xs) (rule sample_pvals_one_hot[OF assms(4)])
  have ok: "pvals_ok (sample_pvals (map Fin xs) (Fin t))"
    unfolding pv by (subst xs) (rule pvals_ok_one_hot)
  have ne: "map Fin xs \<noteq> []" using assms(1) by auto
  have fv: "map fin_value (map Fin xs) = xs"
    by (simp only: map_map comp_def fin_value.simps list.map_ident)
  have smp: "sample (map Fin xs) (Fin t) u = Inr (categorical xs u)"
    using sample_accepts[OF ok ne, of u] by (simp only: pv fv)
  have tk: "sum_list (take k xs) = 0" by (subst xs) (simp add: sum_list_replicate)
  have tk1: "sum_list (take (Suc k) xs) = 1"
    using assms(1,2) tk by (simp add: take_Suc_conv_app_nth)
  have "categorical xs u = k"
    using categorical_interval[OF assms(1) nn, of u] tk tk1 assms(5,6) by simp
  with pv smp show ?thesis by simp
qed

theorem sample_degenerate_witness:
  "sample [Fin 0, Fin 1, Fin 0] (Fin (1 / 2)) (3 / 4) = Inr 1"
proof -
  have h1: "1 < length [0, 1, 0::real]" by simp
  have h2: "[0, 1, 0::real] ! 1 = 1" by simp
  have h3: "\<forall>j < length [0, 1, 0::real]. j \<noteq> 1 \<longrightarrow> [0, 1, 0::real] ! j = 0"
    by (simp add: nth_Cons split: nat.splits)
  have h4: "(0::real) < 1 / 2" by simp
  have h5: "(0::real) \<le> 3 / 4" by simp
  have h6: "(3 / 4::real) < 1" by simp
  from sample_degenerate[OF h1 h2 h3 h4 h5 h6] show ?thesis by simp
qed

text \<open>
  At the temperature 0.0009 the weight of the probability 1/2 is \<open>2 ^ (-10000/9)\<close>, below
  half the smallest subnormal number: it underflows to zero. On the uniform vector of
  length 2 the sum of the weights is then zero, the normalisation gives \<open>nan\<close>, and the
  draw raises ValueError.
\<close>

lemma ln_half_bounds: "- 1 \<le> ln (1 / 2 :: real)" "ln (1 / 2 :: real) \<le> - 1 / 2"
proof -
  have "ln (2::real) \<le> 2 - 1" by (rule ln_le_minus_one) simp
  then show "- 1 \<le> ln (1 / 2 :: real)" by (simp add: ln_div)
  have "ln (1 / 2 :: real) \<le> 1 / 2 - 1" by (rule ln_le_minus_one) simp
  then show "ln (1 / 2 :: real) \<le> - 1 / 2" by simp
qed

lemma tempered_half_underflows:
  "np_exp (f64_div (np_log (Fin (1 / 2))) (Fin (9 / 10000))) = Fin 0"
proof -
  let ?a = "ln (1 / 2 :: real)"
  let ?b = "?a / (9 / 10000)"
  have la: "np_log (Fin (1 / 2)) = Fin ?a"
    using ln_half_bounds by (simp add: f64_of_real_in_range del: ln_divide_pos)
  have bb: "- 10000 / 9 \<le> ?b" "?b \<le> - 5000 / 9"
    using ln_half_bounds by (simp_all add: field_simps del: ln_divide_pos)
  have db: "f64_div (Fin ?a) (Fin (9 / 10000)) = Fin ?b"
    using bb by (simp add: f64_of_real_in_range del: ln_divide_pos)
  have "exp ?b = (1 / 2) powr (10000 / 9)"
    by (simp add: powr_def del: ln_divide_pos)
  also have "\<dots> \<le> (1 / 2) powr (real 1075)"
    by (rule powr_mono') simp_all
  also have "\<dots> = (1 / 2) ^ 1075" by (rule powr_realpow) simp
  also have "\<dots> = f64_underflow" by (simp add: f64_underflow_def power_divide)
  finally have le: "exp ?b \<le> f64_underflow" .
  have "f64_underflow < f64_overflow"
    using f64_underflow_small(2) f64_overflow_gt[of "1 / 2 ^ 12"] by simp
  with le have "exp ?b < f64_overflow" by linarith
  moreover have "(0::real) < f64_overflow" by (rule f64_overflow_gt) simp
  then have "- f64_overflow < exp ?b"
    using exp_gt_zero[of ?b] by linarith
  ultimately have "f64_of_real (exp ?b) = Fin 0"
    using le by (simp add: f64_of_real_def)
  then show ?thesis by (simp only: la db np_exp.simps)
qed

lemma sample_pvals_underflow:
  "sample_pvals [Fin (1 / 2), Fin (1 / 2)] (Fin (9 / 10000)) = [NaN, NaN]"
  by (simp add: sample_pvals_def tempered_half_underflows f64_of_real_0
      del: np_log.simps np_exp.simps f64_div.simps) simp

lemma sample_underflow:
  "sample [Fin (1 / 2), Fin (1 / 2)] (Fin (9 / 10000)) u = Inl ValueError"
  by (rule sample_rejects) (simp add: sample_pvals_underflow pvals_ok_def)

subsection \<open>Autoregressive generator\<close>

lemma encode_loop_ok:
  assumes "k + length cs \<le> length x"
    and "\<forall>r \<in> set x. length r = V"
    and "\<forall>c \<in> set cs. \<exists>j < V. c2i c = Some j"
  shows "encode_loop c2i (List.enumerate k cs) x =
           Inr (take k x @ map (\<lambda>(t, c). (x ! t)[the (c2i c) := 1]) (List.enumerate k cs) @
                drop (k + length cs) x)"
  using assms
proof (induction cs arbitrary: k x)
  case Nil
  then show ?case by simp
next
  case (Cons c cs)
  from Cons.prems(3) obtain j where j: "j < V" "c2i c = Some j" by auto
  have k: "k < length x" using Cons.prems(1) by simp
  then have row: "length (x ! k) = V" using Cons.prems(2) by simp
  define x' where "x' = x[k := (x ! k)[j := 1]]"
  have so: "set_one x k j = Inr x'"
    using k row j(1) by (simp add: set_one_def x'_def)
  have len': "Suc k + length cs \<le> length x'" using Cons.prems(1) by (simp add: x'_def)
  have rows': "\<forall>r \<in> set x'. length r = V"
    using Cons.prems(2) row unfolding x'_def by (auto dest!: set_update_subset_insert[THEN subsetD])
  have cs': "\<forall>c \<in> set cs. \<exists>j < V. c2i c = Some j" using Cons.prems(3) by simp
  have tk: "take (Suc k) x' = take k x @ [(x ! k)[j := 1]]"
    using k by (simp add: x'_def take_Suc_conv_app_nth)
  have dr: "drop (Suc (k + length cs)) x' = drop (Suc (k + length cs)) x"
    by (simp add: x'_def drop_update_cancel)
  have mp: "map (\<lambda>(t, c). (x' ! t)[the (c2i c) := 1]) (List.enumerate (Suc k) cs) =
            map (\<lambda>(t, c). (x ! t)[the (c2i c) := 1]) (List.enumerate (Suc k) cs)"
    by (rule map_cong) (auto simp: x'_def in_set_enumerate_eq)
  show ?case
    using Cons.IH[OF len' rows' cs'] j(2) so
    by (simp add: tk dr mp)
qed

lemma map_enumerate_snd:
  "map (\<lambda>(t, c). f c) (List.enumerate k cs) = map f cs"
  by (induction cs arbitrary: k) simp_all

lemma encode_ok:
  assumes "X_shape s = (n, L, V)" and "length (sentence s) \<le> L"
    and "\<forall>c \<in> set (sentence s). \<exists>j < V. char_to_int_g s c = Some j"
  shows "encode s =
           Inr (map (\<lambda>c. (replicate V 0)[the (char_to_int_g s c) := 1]) (sentence s) @
                replicate (L - length (sentence s)) (replicate V 0))"
proof -
  have rows: "\<forall>r \<in> set (np_zeros L V). length r = V" by (simp add: np_zeros_def)
  have len: "0 + length (sentence s) \<le> length (np_zeros L V)" using assms(2) by (simp add: np_zeros_def)
  have mp: "map (\<lambda>(t, c). (np_zeros L V ! t)[the (char_to_int_g s c) := 1]) (List.enumerate 0 (sentence s)) =
            map (\<lambda>(t, c). (replicate V 0)[the (char_to_int_g s c) := 1]) (List.enumerate 0 (sentence s))"
    using assms(2) by (intro map_cong) (auto simp: in_set_enumerate_eq np_zeros_def)
  show ?thesis
    unfolding encode_def assms(1) prod.case encode_loop_ok[OF len rows assms(3)] mp map_enumerate_snd
    by (simp add: np_zeros_def)
qed

lemma known_chars:
  assumes "set cs \<subseteq> set raw"
  shows "\<forall>c \<in> set cs. \<exists>j < n_vocab raw. char_to_int raw c = Some j"
proof
  fix c assume "c \<in> set cs"
  with assms have "c \<in> dom (char_to_int raw)" by (auto simp: dom_char_to_int)
  then obtain j where "char_to_int raw c = Some j" by blast
  then show "\<exists>j < n_vocab raw. char_to_int raw c = Some j"
    by (auto simp: char_to_int_Some_iff)
qed

lemma gen_loop_add:
  "gen_loop (k + m) d s =
     (case gen_loop k d s of Inl e \<Rightarrow> Inl e | Inr s' \<Rightarrow> gen_loop m d s')"
  by (induction k arbitrary: s) (auto split: sum.splits)

lemma gen_loop_one: "gen_loop (Suc 0) d s = gen_step d s"
  by (simp split: sum.splits)

lemma gen_loop_snoc:
  "gen_loop (Suc k) d s =
     (case gen_loop k d s of Inl e \<Rightarrow> Inl e | Inr s' \<Rightarrow> gen_step d s')"
  using gen_loop_add[of k "Suc 0" d s] by (simp only: gen_loop_one Nat.add_Suc_right add_0_right)

lemma roll_window:
  "k < length xs \<Longrightarrow> drop 1 (drop k xs) @ [c] = drop (Suc k) (xs @ [c])"
  by simp

lemma written_append: "written (xs @ ys) = written xs @ written ys"
  by (induction xs rule: written.induct) simp_all

lemma written_steps: "written (concat (map (\<lambda>c. [Write [c], Flush]) cs)) = cs"
  by (induction cs) simp_all

lemma same_globals_refl: "same_globals s s"
  by (simp add: same_globals_def)

lemma same_globals_trans: "same_globals s'' s' \<Longrightarrow> same_globals s' s \<Longrightarrow> same_globals s'' s"
  by (simp add: same_globals_def)

lemma gen_step_raises:
  assumes "gen_step d s = Inl (e, s')"
  shows "s' = s \<or> s' = s\<lparr>rng := (\<lambda>i. rng s (Suc i))\<rparr>"
proof (cases "encode s")
  case (Inl a) with assms show ?thesis by (simp add: gen_step_def)
next
  case x: (Inr x)
  show ?thesis
  proof (cases "model_predict s x")
    case (Inl a) with assms x show ?thesis by (simp add: gen_step_def)
  next
    case p: (Inr preds)
    show ?thesis
    proof (cases "sample preds d (rng s 0)")
      case (Inl a) with assms x p show ?thesis by (simp add: gen_step_def)
    next
      case i: (Inr i)
      show ?thesis
      proof (cases "int_to_char_g s i")
        case None with assms x p i show ?thesis by (simp add: gen_step_def)
      next
        case (Some c) with assms x p i show ?thesis by (simp add: gen_step_def)
      qed
    qed
  qed
qed

lemma gen_step_returns:
  assumes "gen_step d s = Inr s'"
  shows "\<exists>c. s' = s\<lparr>rng := (\<lambda>i. rng s (Suc i)),
                    generated := generated s @ [c],
                    sentence := drop 1 (sentence s) @ [c],
                    stdout := stdout s @ [Write [c], Flush]\<rparr>"
proof (cases "encode s")
  case (Inl a) with assms show ?thesis by (simp add: gen_step_def)
next
  case x: (Inr x)
  show ?thesis
  proof (cases "model_predict s x")
    case (Inl a) with assms x show ?thesis by (simp add: gen_step_def)
  next
    case p: (Inr preds)
    show ?thesis
    proof (cases "sample preds d (rng s 0)")
      case (Inl a) with assms x p show ?thesis by (simp add: gen_step_def)
    next
      case i: (Inr i)
      show ?thesis
      proof (cases "int_to_char_g s i")
        case None with assms x p i show ?thesis by (simp add: gen_step_def)
      next
        case (Some c) with assms x p i show ?thesis by (auto simp add: gen_step_def)
      qed
    qed
  qed
qed

lemma gen_step_frame: "same_globals (outcome_state (gen_step d s)) s"
proof (cases "gen_step d s")
  case (Inl p)
  obtain e s' where p: "p = (e, s')" by (cases p)
  from gen_step_raises[of d s e s'] Inl p have "s' = s \<or> s' = s\<lparr>rng := (\<lambda>i. rng s (Suc i))\<rparr>"
    by simp
  then have "same_globals s' s" by (auto simp: same_globals_def)
  with Inl p show ?thesis by simp
next
  case (Inr s')
  from gen_step_returns[OF this] have "same_globals s' s" by (auto simp: same_globals_def)
  with Inr show ?thesis by simp
qed

lemma gen_loop_frame: "same_globals (outcome_state (gen_loop k d s)) s"
proof (induction k arbitrary: s)
  case 0
  show ?case by (simp add: same_globals_refl)
next
  case (Suc k)
  show ?case
  proof (cases "gen_step d s")
    case (Inl p)
    with gen_step_frame[of d s] show ?thesis by simp
  next
    case (Inr s')
    with gen_step_frame[of d s] have "same_globals s' s" by simp
    with Suc.IH[of s'] Inr show ?thesis by (simp add: same_globals_trans)
  qed
qed

lemma gen_init_frame: "same_globals (gen_init seed d s) s"
  by (simp add: gen_init_def same_globals_def)

lemma generate_frame: "same_globals (outcome_state (generate seed N d s)) s"
proof -
  have l: "same_globals (outcome_state (gen_loop (nat N) d (gen_init seed d s))) s"
    using gen_loop_frame[of "nat N" d "gen_init seed d s"] gen_init_frame[of seed d s]
    by (rule same_globals_trans)
  show ?thesis
  proof (cases "gen_loop (nat N) d (gen_init seed d s)")
    case (Inl p)
    with l show ?thesis by (simp add: generate_def)
  next
    case (Inr s')
    with l show ?thesis by (simp add: generate_def same_globals_def)
  qed
qed

lemma encode_loop_unknown:
  assumes "\<exists>p \<in> set kvs. c2i (snd p) = None"
  shows "encode_loop c2i kvs x = Inl KeyError \<or> encode_loop c2i kvs x = Inl IndexError"
  using assms
proof (induction kvs arbitrary: x)
  case Nil
  then show ?case by simp
next
  case (Cons p kvs)
  obtain t ch where p: "p = (t, ch)" by (cases p)
  show ?case
  proof (cases "c2i ch")
    case None
    then show ?thesis by (simp add: p)
  next
    case (Some j)
    with Cons.prems p have rest: "\<exists>p \<in> set kvs. c2i (snd p) = None" by auto
    show ?thesis
    proof (cases "set_one x t j")
      case (Inl e)
      then have "e = IndexError" by (simp add: set_one_def split: if_splits)
      with Inl Some show ?thesis by (simp add: p)
    next
      case (Inr x')
      with Cons.IH[OF rest, of x'] Some show ?thesis by (simp add: p)
    qed
  qed
qed

lemma encode_unknown:
  assumes "\<exists>c \<in> set (sentence s). char_to_int_g s c = None"
  shows "encode s = Inl KeyError \<or> encode s = Inl IndexError"
proof -
  obtain n L V where sh: "X_shape s = (n, L, V)" by (cases "X_shape s") auto
  from assms obtain c where c: "c \<in> set (sentence s)" "char_to_int_g s c = None" by blast
  then obtain i where "i < length (sentence s)" "sentence s ! i = c" by (auto simp: in_set_conv_nth)
  then have "(i, c) \<in> set (List.enumerate 0 (sentence s))" by (simp add: in_set_enumerate_eq)
  with c(2) have "\<exists>p \<in> set (List.enumerate 0 (sentence s)). char_to_int_g s (snd p) = None"
    by force
  from encode_loop_unknown[OF this] show ?thesis by (simp add: encode_def sh)
qed

lemma gen_step_raises_locals:
  assumes "gen_step d s = Inl (e, s')"
  shows "generated s' = generated s \<and> sentence s' = sentence s \<and> stdout s' = stdout s"
proof -
  from gen_step_raises[OF assms] consider "s' = s" | "s' = s\<lparr>rng := (\<lambda>i. rng s (Suc i))\<rparr>"
    by blast
  then show ?thesis
  proof cases
    case 1 then show ?thesis by simp
  next
    case 2 then show ?thesis by simp
  qed
qed

lemma gen_loop_fails_at:
  assumes "gen_loop k d s0 = Inr s1" and "gen_step d s1 = Inl (e, s2)"
  shows "gen_loop (k + Suc m) d s0 = Inl (e, s2)"
proof -
  have "gen_loop (Suc m) d s1 = Inl (e, s2)"
    by (simp only: gen_loop.simps assms(2) sum.case)
  then show ?thesis
    by (simp only: gen_loop_add[of k "Suc m"] assms(1) sum.case)
qed

lemma generate_raises:
  assumes "gen_loop (nat N) d (gen_init seed d s) = Inl (e, s')"
  shows "generate seed N d s = Inl (e, s')"
  by (simp only: generate_def assms sum.case)

lemma generate_step_failure:
  assumes "k < nat N" and "gen_loop k d (gen_init seed d s) = Inr s1"
    and "gen_step d s1 = Inl (e, s2)"
  shows "generate seed N d s = Inl (e, s2)"
proof -
  have "k + Suc (nat N - Suc k) = nat N" using assms(1) by arith
  with gen_loop_fails_at[OF assms(2,3), of "nat N - Suc k"]
  have "gen_loop (nat N) d (gen_init seed d s) = Inl (e, s2)" by (simp only:)
  then show ?thesis by (rule generate_raises)
qed

lemma generate_unknown_char:
  assumes "0 < N" and "\<exists>c \<in> set seed. char_to_int_g s c = None"
  shows "\<exists>e'. generate seed N d s = Inl (e', gen_init seed d s) \<and> (e' = KeyError \<or> e' = IndexError)"
proof -
  from assms(1) obtain m where m: "nat N = Suc m" by (cases "nat N") auto
  let ?i = "gen_init seed d s"
  have "\<exists>c \<in> set (sentence ?i). char_to_int_g ?i c = None"
    using assms(2) by (simp add: gen_init_def)
  from encode_unknown[OF this] obtain e' where e': "encode ?i = Inl e'" "e' = KeyError \<or> e' = IndexError"
    by blast
  have st: "gen_step d ?i = Inl (e', ?i)" by (simp only: gen_step_def e'(1) sum.case)
  have "gen_loop (Suc m) d ?i = Inl (e', ?i)" by (simp only: gen_loop.simps st sum.case)
  then have "generate seed N d s = Inl (e', ?i)" by (simp only: generate_def m sum.case)
  with e'(2) show ?thesis by blast
qed

lemma example_vocab:
  "chars ''ab'' = ''ab''" "n_vocab ''ab'' = 2"
  "char_to_int ''ab'' = [CHR ''a'' \<mapsto> 0, CHR ''b'' \<mapsto> 1]"
  by (simp_all add: chars_def n_vocab_def char_to_int_def dict_def enumerate_eq_zip)

text \<open>
  Claim C8. However a call of \<open>generate\<close> ends, the shape of \<open>X\<close>, both vocabulary
  dictionaries and the model are what they were before the call. If a step fails, whether
  in the encoding, in the model, in the sampler or in the decoding, the call ends with
  that very error and in the state in which the step failed: nothing is retried, and the
  buffer and the output are those of the steps completed before. In particular a seed
  with a character outside the vocabulary makes the first step, and thereby the call,
  fail in the encoding.
\<close>

theorem generate_failure_is_fatal:
  "same_globals (outcome_state (generate seed N d s)) s \<and>
   (k < nat N \<and> gen_loop k d (gen_init seed d s) = Inr s\<^sub>k \<and> gen_step d s\<^sub>k = Inl (e, s\<^sub>e) \<longrightarrow>
      generate seed N d s = Inl (e, s\<^sub>e) \<and> same_globals s\<^sub>e s \<and>
      generated s\<^sub>e = generated s\<^sub>k \<and> sentence s\<^sub>e = sentence s\<^sub>k \<and> stdout s\<^sub>e = stdout s\<^sub>k) \<and>
   (0 < N \<and> (\<exists>c \<in> set seed. char_to_int_g s c = None) \<longrightarrow>
      (\<exists>e'. generate seed N d s = Inl (e', gen_init seed d s) \<and> (e' = KeyError \<or> e' = IndexError)))"
proof (intro conjI)
  show "same_globals (outcome_state (generate seed N d s)) s" by (rule generate_frame)
next
  show "k < nat N \<and> gen_loop k d (gen_init seed d s) = Inr s\<^sub>k \<and> gen_step d s\<^sub>k = Inl (e, s\<^sub>e) \<longrightarrow>
      generate seed N d s = Inl (e, s\<^sub>e) \<and> same_globals s\<^sub>e s \<and>
      generated s\<^sub>e = generated s\<^sub>k \<and> sentence s\<^sub>e = sentence s\<^sub>k \<and> stdout s\<^sub>e = stdout s\<^sub>k"
  proof
    assume a: "k < nat N \<and> gen_loop k d (gen_init seed d s) = Inr s\<^sub>k \<and> gen_step d s\<^sub>k = Inl (e, s\<^sub>e)"
    then have k: "k < nat N" and l: "gen_loop k d (gen_init seed d s) = Inr s\<^sub>k"
      and st: "gen_step d s\<^sub>k = Inl (e, s\<^sub>e)" by blast+
    have g: "generate seed N d s = Inl (e, s\<^sub>e)" by (rule generate_step_failure[OF k l st])
    have "same_globals (outcome_state (Inl (e, s\<^sub>e))) s"
      using generate_frame[of seed N d s] by (simp only: g)
    then have fr: "same_globals s\<^sub>e s" by simp
    from g fr gen_step_raises_locals[OF st]
    show "generate seed N d s = Inl (e, s\<^sub>e) \<and> same_globals s\<^sub>e s \<and>
        generated s\<^sub>e = generated s\<^sub>k \<and> sentence s\<^sub>e = sentence s\<^sub>k \<and> stdout s\<^sub>e = stdout s\<^sub>k"
      by blast
  qed
next
  show "0 < N \<and> (\<exists>c \<in> set seed. char_to_int_g s c = None) \<longrightarrow>
      (\<exists>e'. generate seed N d s = Inl (e', gen_init seed d s) \<and> (e' = KeyError \<or> e' = IndexError))"
  proof
    assume a: "0 < N \<and> (\<exists>c \<in> set seed. char_to_int_g s c = None)"
    then have "0 < N" "\<exists>c \<in> set seed. char_to_int_g s c = None" by blast+
    then show "\<exists>e'. generate seed N d s = Inl (e', gen_init seed d s) \<and> (e' = KeyError \<or> e' = IndexError)"
      by (rule generate_unknown_char)
  qed
qed

theorem generate_failure_is_fatal_witness:
  "generate ''az'' 3 (Fin 1) example_state = Inl (KeyError, gen_init ''az'' (Fin 1) example_state) \<and>
   same_globals (gen_init ''az'' (Fin 1) example_state) example_state \<and>
   generated (gen_init ''az'' (Fin 1) example_state) = ''az''"
proof -
  let ?i = "gen_init ''az'' (Fin 1) example_state"
  have k: "(0::nat) < nat 3" by simp
  have l: "gen_loop 0 (Fin 1) ?i = Inr ?i" by simp
  have enc: "encode ?i = Inl KeyError"
    by (simp add: encode_def gen_init_def example_state_def example_vocab np_zeros_def
        set_one_def enumerate_eq_zip numeral_2_eq_2)
  have st: "gen_step (Fin 1) ?i = Inl (KeyError, ?i)"
    by (simp only: gen_step_def enc sum.case)
  from generate_failure_is_fatal[of "''az''" 3 "Fin 1" example_state 0 ?i KeyError ?i] k l st
  have "generate ''az'' 3 (Fin 1) example_state = Inl (KeyError, ?i) \<and> same_globals ?i example_state"
    by blast
  moreover have "generated ?i = ''az''" by (simp add: gen_init_def)
  ultimately show ?thesis by blast
qed

lemma gen_step_ok:
  assumes "gen_ready raw s" and "sampler_returns d s"
    and "length (sentence s) \<le> fst (snd (X_shape s))" and "set (sentence s) \<subseteq> set raw"
  shows "\<exists>c \<in> set raw.
           gen_step d s =
             Inr (s\<lparr>rng := (\<lambda>i. rng s (Suc i)),
                    generated := generated s @ [c],
                    sentence := drop 1 (sentence s) @ [c],
                    stdout := stdout s @ [Write [c], Flush]\<rparr>)"
proof -
  obtain n L V where sh: "X_shape s = (n, L, V)" by (cases "X_shape s") auto
  have V: "V = n_vocab raw" and c2i: "char_to_int_g s = char_to_int raw"
    and i2c: "int_to_char_g s = int_to_char raw"
    and mdl: "\<forall>x. \<exists>preds. model_predict s x = Inr preds \<and> length preds = n_vocab raw"
    using assms(1) sh by (simp_all add: gen_ready_def)
  have len: "length (sentence s) \<le> L" using assms(3) sh by simp
  have kn: "\<forall>c \<in> set (sentence s). \<exists>j < V. char_to_int_g s c = Some j"
    unfolding V c2i by (rule known_chars[OF assms(4)])
  from encode_ok[OF sh len kn] obtain x where x: "encode s = Inr x" by blast
  from mdl obtain preds where p: "model_predict s x = Inr preds" "length preds = n_vocab raw"
    by blast
  from assms(2) p(1) obtain i where i: "sample preds d (rng s 0) = Inr i"
    unfolding sampler_returns_def by blast
  have iV: "i < n_vocab raw" using sample_index_bound[OF i] p(2) by simp
  have ch: "int_to_char raw i = Some (chars raw ! i)" by (rule int_to_char_nth[OF iV])
  have "chars raw ! i \<in> set (chars raw)" using iV by (simp add: n_vocab_def)
  then have mem: "chars raw ! i \<in> set raw" by (simp add: chars_set)
  have "gen_step d s =
             Inr (s\<lparr>rng := (\<lambda>i. rng s (Suc i)),
                    generated := generated s @ [chars raw ! i],
                    sentence := drop 1 (sentence s) @ [chars raw ! i],
                    stdout := stdout s @ [Write [chars raw ! i], Flush]\<rparr>)"
    by (simp add: gen_step_def x p(1) i i2c ch)
  with mem show ?thesis by blast
qed

lemma gen_loop_ok:
  assumes "gen_ready raw s" and "k = 0 \<or> sampler_returns d s" and "sentence s \<noteq> []"
    and "length (sentence s) \<le> fst (snd (X_shape s))"
    and "set (sentence s) \<subseteq> set raw"
  shows "\<exists>cs. length cs = k \<and> set cs \<subseteq> set raw \<and>
           gen_loop k d s =
             Inr (s\<lparr>rng := (\<lambda>i. rng s (i + k)),
                    generated := generated s @ cs,
                    sentence := drop k (sentence s @ cs),
                    stdout := stdout s @ concat (map (\<lambda>c. [Write [c], Flush]) cs)\<rparr>)"
  using assms(2)
proof (induction k)
  case 0
  show ?case by simp
next
  case (Suc k)
  then have sr: "sampler_returns d s" by simp
  with Suc.IH obtain cs where cs: "length cs = k" "set cs \<subseteq> set raw"
    and run: "gen_loop k d s =
             Inr (s\<lparr>rng := (\<lambda>i. rng s (i + k)),
                    generated := generated s @ cs,
                    sentence := drop k (sentence s @ cs),
                    stdout := stdout s @ concat (map (\<lambda>c. [Write [c], Flush]) cs)\<rparr>)"
    by blast
  let ?s = "s\<lparr>rng := (\<lambda>i. rng s (i + k)),
                    generated := generated s @ cs,
                    sentence := drop k (sentence s @ cs),
                    stdout := stdout s @ concat (map (\<lambda>c. [Write [c], Flush]) cs)\<rparr>"
  have r: "gen_ready raw ?s" using assms(1) by (simp add: gen_ready_def)
  have sr': "sampler_returns d ?s" using sr by (simp add: sampler_returns_def)
  have lk: "length (drop k (sentence s @ cs)) = length (sentence s)" using cs(1) by simp
  have l: "length (sentence ?s) \<le> fst (snd (X_shape ?s))" using assms(4) lk by simp
  have m: "set (sentence ?s) \<subseteq> set raw"
    using assms(5) cs(2) set_drop_subset[of k "sentence s @ cs"] by auto
  from gen_step_ok[OF r sr' l m] obtain c where c: "c \<in> set raw"
    and st: "gen_step d ?s =
             Inr (?s\<lparr>rng := (\<lambda>i. rng ?s (Suc i)),
                    generated := generated ?s @ [c],
                    sentence := drop 1 (sentence ?s) @ [c],
                    stdout := stdout ?s @ [Write [c], Flush]\<rparr>)"
    by blast
  have dr: "drop 1 (drop k (sentence s @ cs)) @ [c] = drop (Suc k) (sentence s @ cs @ [c])"
  proof -
    have "k < length (sentence s @ cs)" using cs(1) assms(3) by (cases "sentence s") simp_all
    from roll_window[OF this, of c] show ?thesis by (simp only: append_assoc)
  qed
  have "gen_loop (Suc k) d s =
          Inr (s\<lparr>rng := (\<lambda>i. rng s (i + Suc k)),
                 generated := generated s @ (cs @ [c]),
                 sentence := drop (Suc k) (sentence s @ (cs @ [c])),
                 stdout := stdout s @ concat (map (\<lambda>c. [Write [c], Flush]) (cs @ [c]))\<rparr>)"
    unfolding gen_loop_snoc run sum.case st using dr by (simp add: add.commute)
  moreover have "length (cs @ [c]) = Suc k" "set (cs @ [c]) \<subseteq> set raw" using cs c by simp_all
  ultimately show ?case by blast
qed

lemma gen_loop_from_seed:
  assumes "gen_ready raw s" and "k = 0 \<or> sampler_returns d s" and "seed \<noteq> []"
    and "length seed \<le> fst (snd (X_shape s))" and "set seed \<subseteq> set raw"
  shows "\<exists>s' cs. gen_loop k d (gen_init seed d s) = Inr s' \<and>
           length cs = k \<and> set cs \<subseteq> set raw \<and>
           generated s' = seed @ cs \<and>
           sentence s' = drop k (seed @ cs) \<and>
           stdout s' = stdout s @ [Print_diversity d, Write seed] @
                         concat (map (\<lambda>c. [Write [c], Flush]) cs) \<and>
           X_shape s' = X_shape s \<and> gen_ready raw s' \<and>
           (sampler_returns d s \<longrightarrow> sampler_returns d s')"
proof -
  let ?i = "gen_init seed d s"
  have i1: "gen_ready raw ?i" using assms(1) by (simp add: gen_init_def gen_ready_def)
  have i2: "k = 0 \<or> sampler_returns d ?i"
    using assms(2) by (simp add: gen_init_def sampler_returns_def)
  have i3: "sentence ?i \<noteq> []" using assms(3) by (simp add: gen_init_def)
  have i4: "length (sentence ?i) \<le> fst (snd (X_shape ?i))" using assms(4) by (simp add: gen_init_def)
  have i5: "set (sentence ?i) \<subseteq> set raw" using assms(5) by (simp add: gen_init_def)
  from gen_loop_ok[OF i1 i2 i3 i4 i5] obtain cs where cs: "length cs = k" "set cs \<subseteq> set raw"
    and run: "gen_loop k d ?i =
             Inr (?i\<lparr>rng := (\<lambda>i. rng (gen_init seed d s) (i + k)),
                    generated := generated ?i @ cs,
                    sentence := drop k (sentence ?i @ cs),
                    stdout := stdout ?i @ concat (map (\<lambda>c. [Write [c], Flush]) cs)\<rparr>)"
    by blast
  show ?thesis
    unfolding run using cs assms(1) by (simp add: gen_init_def gen_ready_def sampler_returns_def)
qed


lemma example_ready: "gen_ready ''ab'' example_state"
  by (simp add: gen_ready_def example_state_def example_vocab)

lemma uniform_ready: "gen_ready ''ab'' uniform_state"
  by (simp add: gen_ready_def uniform_state_def example_state_def example_vocab)

lemma example_sampler: "sampler_returns (Fin 1) example_state"
proof -
  have pv: "sample_pvals [Fin 0, Fin 1] (Fin 1) = [Fin 0, Fin 1]"
    using sample_pvals_one_hot[of 1 "Suc 0" 0] by simp
  have ok: "pvals_ok (sample_pvals [Fin 0, Fin 1] (Fin 1))"
    unfolding pv using pvals_ok_one_hot[of "Suc 0" 0] by simp
  have "\<exists>i. sample [Fin 0, Fin 1] (Fin 1) u = Inr i" for u
    using sample_accepts[OF ok, of u] by blast
  then show ?thesis by (simp add: sampler_returns_def example_state_def)
qed

lemma uniform_first_step:
  assumes "seed = ''ab'' \<or> seed = ''a''"
  shows "gen_step (Fin (9 / 10000)) (gen_init seed (Fin (9 / 10000)) uniform_state) =
           Inl (ValueError, gen_init seed (Fin (9 / 10000)) uniform_state)"
proof -
  let ?i = "gen_init seed (Fin (9 / 10000)) uniform_state"
  have "\<exists>x. encode ?i = Inr x"
    using assms
    by (auto simp: encode_def gen_init_def uniform_state_def example_state_def example_vocab
        np_zeros_def set_one_def enumerate_eq_zip numeral_2_eq_2)
  then obtain x where x: "encode ?i = Inr x" by blast
  have m: "model_predict ?i x = Inr [Fin (1 / 2), Fin (1 / 2)]"
    by (simp add: gen_init_def uniform_state_def)
  show ?thesis
    by (simp only: gen_step_def x m sample_underflow sum.case)
qed

text \<open>
  Claim C3 says that \<open>generate\<close> produces a buffer of length \<open>len(seed) + N\<close> for every
  temperature \<open>t > 0\<close>. With a model that answers with the uniform vector, at the
  temperature 0.0009, the sampler raises ValueError in the first step, and so does the
  call: no buffer of length \<open>len(seed) + 2\<close> is produced.
\<close>

theorem generate_buffer_counterexample:
  "gen_ready ''ab'' uniform_state \<and>
   length ''ab'' = fst (snd (X_shape uniform_state)) \<and>
   set ''ab'' \<subseteq> set ''ab'' \<and> (0::int) \<le> 2 \<and> (0::real) < 9 / 10000 \<and>
   generate ''ab'' 2 (Fin (9 / 10000)) uniform_state =
     Inl (ValueError, gen_init ''ab'' (Fin (9 / 10000)) uniform_state)"
proof -
  have k: "(0::nat) < nat 2" by simp
  have l: "gen_loop 0 (Fin (9 / 10000)) (gen_init ''ab'' (Fin (9 / 10000)) uniform_state) =
             Inr (gen_init ''ab'' (Fin (9 / 10000)) uniform_state)" by simp
  have st: "gen_step (Fin (9 / 10000)) (gen_init ''ab'' (Fin (9 / 10000)) uniform_state) =
           Inl (ValueError, gen_init ''ab'' (Fin (9 / 10000)) uniform_state)"
    by (rule uniform_first_step) simp
  from generate_step_failure[OF k l st] uniform_ready show ?thesis
    by (simp add: uniform_state_def example_state_def)
qed

text \<open>
  Claim C3, amended. In a state set up as the notebook sets it up, for a seed of the
  window length whose characters all belong to the vocabulary, every \<open>N \<ge> 0\<close> and every
  temperature \<open>t > 0\<close> at which the sampler returns an index on every vector the model
  outputs (or \<open>N = 0\<close>, when nothing is sampled), \<open>generate\<close> completes; its buffer
  \<open>generated\<close> is the seed followed by \<open>N\<close> characters, so its length is
  \<open>len(seed) + N\<close> and it begins with the seed, and with \<open>N = 0\<close> it is the seed
  unchanged. What the call writes to stdout with \<^verbatim>\<open>sys.stdout.write\<close> is exactly that
  buffer.
\<close>

theorem generate_buffer:
  assumes "gen_ready raw_text s" and "length seed = fst (snd (X_shape s))"
    and "set seed \<subseteq> set raw_text" and "0 \<le> N" and "0 < t"
    and "N = 0 \<or> sampler_returns (Fin t) s"
  shows "\<exists>s' cs. generate seed N (Fin t) s = Inr s' \<and>
           generated s' = seed @ cs \<and>
           int (length cs) = N \<and>
           int (length (generated s')) = int (length seed) + N \<and>
           take (length seed) (generated s') = seed \<and>
           written (stdout s') = written (stdout s) @ generated s' \<and>
           (N = 0 \<longrightarrow> generated s' = seed)"
proof -
  have L: "0 < fst (snd (X_shape s))" using assms(1) by (simp add: gen_ready_def)
  then have ne: "seed \<noteq> []" using assms(2) by auto
  have le: "length seed \<le> fst (snd (X_shape s))" using assms(2) by simp
  have sr: "nat N = 0 \<or> sampler_returns (Fin t) s" using assms(6) by auto
  from gen_loop_from_seed[OF assms(1) sr ne le assms(3)] obtain s' cs where
    run: "gen_loop (nat N) (Fin t) (gen_init seed (Fin t) s) = Inr s'"
    and cs: "length cs = nat N" "generated s' = seed @ cs"
    and out: "stdout s' = stdout s @ [Print_diversity (Fin t), Write seed] @
                         concat (map (\<lambda>c. [Write [c], Flush]) cs)"
    by blast
  let ?r = "s'\<lparr>stdout := stdout s' @ [Print_newline]\<rparr>"
  have g: "generate seed N (Fin t) s = Inr ?r" by (simp add: generate_def run)
  have w: "written (stdout ?r) = written (stdout s) @ generated ?r"
    by (simp add: out cs(2) written_append written_steps)
  have "int (length cs) = N" using cs(1) assms(4) by simp
  then show ?thesis using g w cs(2) by (intro exI[of _ ?r] exI[of _ cs]) auto
qed

theorem generate_buffer_witness:
  "\<exists>s' cs. generate ''ab'' 3 (Fin 1) example_state = Inr s' \<and>
     generated s' = ''ab'' @ cs \<and> int (length cs) = 3 \<and>
     int (length (generated s')) = int (length ''ab'') + 3"
proof -
  have h2: "length ''ab'' = fst (snd (X_shape example_state))" by (simp add: example_state_def)
  have h3: "set ''ab'' \<subseteq> set ''ab''" by simp
  have h4: "(0::int) \<le> 3" by simp
  have h5: "(0::real) < 1" by simp
  have h6: "(3::int) = 0 \<or> sampler_returns (Fin 1) example_state" using example_sampler by simp
  from generate_buffer[OF example_ready h2 h3 h4 h5 h6] show ?thesis by blast
qed



text \<open>
  Claim C10 says that for a non-empty seed shorter than the window the call completes and
  returns a buffer of length \<open>len(seed) + N\<close>, at every temperature. With a model that
  answers with the uniform vector, at the temperature 0.0009, the one-character seed is
  encoded, and then the sampler raises ValueError in the first step: the call does not
  complete.
\<close>

theorem generate_short_seed_counterexample:
  "gen_ready ''ab'' uniform_state \<and> ''a'' \<noteq> [] \<and>
   length ''a'' < fst (snd (X_shape uniform_state)) \<and>
   set ''a'' \<subseteq> set ''ab'' \<and> (0::int) \<le> 2 \<and> (0::real) < 9 / 10000 \<and>
   generate ''a'' 2 (Fin (9 / 10000)) uniform_state =
     Inl (ValueError, gen_init ''a'' (Fin (9 / 10000)) uniform_state)"
proof -
  have k: "(0::nat) < nat 2" by simp
  have l: "gen_loop 0 (Fin (9 / 10000)) (gen_init ''a'' (Fin (9 / 10000)) uniform_state) =
             Inr (gen_init ''a'' (Fin (9 / 10000)) uniform_state)" by simp
  have st: "gen_step (Fin (9 / 10000)) (gen_init ''a'' (Fin (9 / 10000)) uniform_state) =
           Inl (ValueError, gen_init ''a'' (Fin (9 / 10000)) uniform_state)"
    by (rule uniform_first_step) simp
  from generate_step_failure[OF k l st] uniform_ready show ?thesis
    by (simp add: uniform_state_def example_state_def)
qed

text \<open>
  Claim C10, amended. For a non-empty seed shorter than the window whose characters all
  belong to the vocabulary, and a temperature \<open>t > 0\<close> at which the sampler returns an
  index on every vector the model outputs (or \<open>N = 0\<close>), \<open>generate\<close> neither rejects
  nor pads: before every step the state has the length of the seed, its encoding succeeds
  and consists of one one-hot row per character of the state followed by
  \<open>L - len(seed)\<close> all-zero rows, and the call completes with a buffer of length
  \<open>len(seed) + N\<close> and a state of the seed's length.
\<close>

theorem generate_short_seed:
  assumes "gen_ready raw_text s" and "seed \<noteq> []" and "length seed < fst (snd (X_shape s))"
    and "set seed \<subseteq> set raw_text" and "0 \<le> N" and "0 < t"
    and "N = 0 \<or> sampler_returns (Fin t) s"
  shows "(\<forall>k \<le> nat N. \<exists>s\<^sub>k.
            gen_loop k (Fin t) (gen_init seed (Fin t) s) = Inr s\<^sub>k \<and>
            length (sentence s\<^sub>k) = length seed \<and>
            (\<forall>c \<in> set (sentence s\<^sub>k). \<exists>j < n_vocab raw_text. char_to_int raw_text c = Some j) \<and>
            encode s\<^sub>k =
              Inr (map (\<lambda>c. (replicate (n_vocab raw_text) 0)[the (char_to_int raw_text c) := 1])
                     (sentence s\<^sub>k) @
                   replicate (fst (snd (X_shape s)) - length seed)
                     (replicate (n_vocab raw_text) 0))) \<and>
         (\<exists>s' cs. generate seed N (Fin t) s = Inr s' \<and>
            generated s' = seed @ cs \<and>
            int (length (generated s')) = int (length seed) + N \<and>
            length (sentence s') = length seed)"
proof -
  have le: "length seed \<le> fst (snd (X_shape s))" using assms(3) by simp
  have steps: "\<exists>s\<^sub>k.
            gen_loop k (Fin t) (gen_init seed (Fin t) s) = Inr s\<^sub>k \<and>
            length (sentence s\<^sub>k) = length seed \<and>
            (\<forall>c \<in> set (sentence s\<^sub>k). \<exists>j < n_vocab raw_text. char_to_int raw_text c = Some j) \<and>
            encode s\<^sub>k =
              Inr (map (\<lambda>c. (replicate (n_vocab raw_text) 0)[the (char_to_int raw_text c) := 1])
                     (sentence s\<^sub>k) @
                   replicate (fst (snd (X_shape s)) - length seed)
                     (replicate (n_vocab raw_text) 0))" if k: "k \<le> nat N" for k
  proof -
    have sr: "k = 0 \<or> sampler_returns (Fin t) s" using assms(7) k by auto
    from gen_loop_from_seed[OF assms(1) sr assms(2) le assms(4)] obtain s' cs where
      run: "gen_loop k (Fin t) (gen_init seed (Fin t) s) = Inr s'"
      and cs: "length cs = k" "set cs \<subseteq> set raw_text" "sentence s' = drop k (seed @ cs)"
      and sh: "X_shape s' = X_shape s" and rd: "gen_ready raw_text s'"
      by blast
    obtain n L V where shp: "X_shape s' = (n, L, V)" by (cases "X_shape s'") auto
    have V: "V = n_vocab raw_text" and c2i: "char_to_int_g s' = char_to_int raw_text"
      using rd shp by (simp_all add: gen_ready_def)
    have Ls: "L = fst (snd (X_shape s))" using sh shp by (metis fst_conv snd_conv)
    have len: "length (sentence s') = length seed" using cs(1,3) by simp
    have l: "length (sentence s') \<le> L" using len le Ls by simp
    have m: "set (sentence s') \<subseteq> set raw_text"
      using cs(2,3) assms(4) set_drop_subset[of k "seed @ cs"] by auto
    have kn: "\<forall>c \<in> set (sentence s'). \<exists>j < n_vocab raw_text. char_to_int raw_text c = Some j"
      by (rule known_chars[OF m])
    have kn': "\<forall>c \<in> set (sentence s'). \<exists>j < V. char_to_int_g s' c = Some j"
      unfolding V c2i by (rule kn)
    from encode_ok[OF shp l kn'] run len kn show ?thesis
      unfolding V c2i Ls by auto
  qed
  have sr: "nat N = 0 \<or> sampler_returns (Fin t) s" using assms(7) by auto
  from gen_loop_from_seed[OF assms(1) sr assms(2) le assms(4)] obtain s' cs where
    run: "gen_loop (nat N) (Fin t) (gen_init seed (Fin t) s) = Inr s'"
    and cs: "length cs = nat N" "generated s' = seed @ cs" "sentence s' = drop (nat N) (seed @ cs)"
    by blast
  let ?r = "s'\<lparr>stdout := stdout s' @ [Print_newline]\<rparr>"
  have g: "generate seed N (Fin t) s = Inr ?r" by (simp add: generate_def run)
  have "int (length (generated ?r)) = int (length seed) + N" using cs(1,2) assms(5) by simp
  moreover have "length (sentence ?r) = length seed" using cs(1,3) by simp
  ultimately have fin: "\<exists>s' cs. generate seed N (Fin t) s = Inr s' \<and>
            generated s' = seed @ cs \<and>
            int (length (generated s')) = int (length seed) + N \<and>
            length (sentence s') = length seed"
    using g cs(2) by (intro exI[of _ ?r] exI[of _ cs]) simp
  from steps fin show ?thesis by blast
qed

theorem generate_short_seed_witness:
  "encode (gen_init ''a'' (Fin 1) example_state) = Inr [[1, 0], [0, 0]] \<and>
   (\<exists>s' cs. generate ''a'' 3 (Fin 1) example_state = Inr s' \<and>
     generated s' = ''a'' @ cs \<and>
     int (length (generated s')) = int (length ''a'') + 3 \<and>
     length (sentence s') = length ''a'')"
proof -
  have h2: "''a'' \<noteq> []" by simp
  have h3: "length ''a'' < fst (snd (X_shape example_state))" by (simp add: example_state_def)
  have h4: "set ''a'' \<subseteq> set ''ab''" by simp
  have h5: "(0::int) \<le> 3" by simp
  have h6: "(0::real) < 1" by simp
  have h7: "(3::int) = 0 \<or> sampler_returns (Fin 1) example_state" using example_sampler by simp
  note t = generate_short_seed[OF example_ready h2 h3 h4 h5 h6 h7]
  from t have "\<exists>s\<^sub>k. gen_loop 0 (Fin 1) (gen_init ''a'' (Fin 1) example_state) = Inr s\<^sub>k \<and>
            encode s\<^sub>k =
              Inr (map (\<lambda>c. (replicate (n_vocab ''ab'') 0)[the (char_to_int ''ab'' c) := 1])
                     (sentence s\<^sub>k) @
                   replicate (fst (snd (X_shape example_state)) - length ''a'')
                     (replicate (n_vocab ''ab'') 0))"
    by blast
  then have "encode (gen_init ''a'' (Fin 1) example_state) = Inr [[1, 0], [0, 0]]"
    by (simp add: gen_init_def example_state_def example_vocab numeral_2_eq_2)
  with t show ?thesis by blast
qed

end
